theory Spec2Isabelle
  imports Main "HOL-Library.Multiset"
begin

section \<open>Activity feed: recordings, early termination, sorting, filtering\<close>

text \<open>
  A Go \<open>time.Time\<close> is modelled by the instant it denotes, in nanoseconds on one time
  line: \<open>Before\<close>, \<open>After\<close> compare instants only.
\<close>

type_synonym time = int

definition Before :: "time \<Rightarrow> time \<Rightarrow> bool" where
  "Before t u = (t < u)"

definition After :: "time \<Rightarrow> time \<Rightarrow> bool" where
  "After t u = (t > u)"

record Company =
  ID :: int
  Name :: string

record Person =
  ID :: int
  Name :: string
  EmailAddress :: string
  Title :: string
  AvatarURL :: string
  Company :: "Company option"
  CreatedAt :: string
  Admin :: bool
  Owner :: bool

record Bucket =
  ID :: int
  Name :: string
  Type :: string

record Parent =
  ID :: int
  Title :: string
  Type :: string
  URL :: string
  AppURL :: string

record Recording =
  ID :: int
  Title :: string
  Status :: string
  Type :: string
  CreatedAt :: time
  UpdatedAt :: time
  URL :: string
  AppURL :: string
  Creator :: Person
  Bucket :: Bucket
  Parent :: "Parent option"

record ActivityListOptions =
  Since :: "time option"
  RecordingTypes :: "string list"
  PersonID :: int
  Limit :: int

text \<open>
  The page handed to a page-check callback is a Go \<open>any\<close>; the callback of
  \<open>listRecordingsByType\<close> asserts it to be a \<open>[]Recording\<close>.
\<close>

datatype page_any = RecordingPage "Recording list" | OtherPage

text \<open>The closure installed by \<open>listRecordingsByType\<close> when \<open>since\<close> is not nil.\<close>

definition sincePageCheck :: "time \<Rightarrow> page_any \<Rightarrow> bool" where
  "sincePageCheck cutoff page =
     (case page of
        OtherPage \<Rightarrow> False
      | RecordingPage recs \<Rightarrow>
          (if length recs = 0 then False
           else \<not> Before (UpdatedAt (recs ! (length recs - 1))) cutoff))"

text \<open>
  \<open>sort.SliceStable\<close> is the standard library's stable sort. For slices of at most 20
  elements it is the insertion sort below (element \<open>j\<close> is swapped to the left while
  \<open>less(j, j-1)\<close>); for longer ones it merges such blocks, with the same result.
\<close>

function insertionStep :: "('a \<Rightarrow> 'a \<Rightarrow> bool) \<Rightarrow> 'a list \<Rightarrow> 'a \<Rightarrow> 'a list" where
  "insertionStep lessf ys x =
     (if ys = [] then [x]
      else if lessf x (last ys) then insertionStep lessf (butlast ys) x @ [last ys]
      else ys @ [x])"
  by pat_completeness auto
termination
  by (relation "measure (\<lambda>(lessf, ys, x). length ys)") auto

definition SliceStable :: "'a list \<Rightarrow> ('a \<Rightarrow> 'a \<Rightarrow> bool) \<Rightarrow> 'a list" where
  "SliceStable xs lessf = foldl (insertionStep lessf) [] xs"

definition sortRecordings :: "Recording list \<Rightarrow> Recording list" where
  "sortRecordings recordings =
     SliceStable recordings (\<lambda>ri rj. After (UpdatedAt ri) (UpdatedAt rj))"

text \<open>
  The loop of \<open>filterRecordings\<close>; \<open>filtered\<close> is the slice built so far. The capacity
  computed before the loop only sizes the allocation.
\<close>

fun filterLoop :: "ActivityListOptions \<Rightarrow> Recording list \<Rightarrow> Recording list \<Rightarrow> Recording list" where
  "filterLoop opts [] filtered = filtered"
| "filterLoop opts (r # rs) filtered =
     (if (case Since opts of None \<Rightarrow> False | Some s \<Rightarrow> Before (UpdatedAt r) s)
      then filterLoop opts rs filtered
      else if PersonID opts > 0 \<and> Person.ID (Creator r) \<noteq> PersonID opts
      then filterLoop opts rs filtered
      else (let filtered' = filtered @ [r]
            in if Limit opts > 0 \<and> int (length filtered') \<ge> Limit opts
               then filtered'
               else filterLoop opts rs filtered'))"

definition filterRecordings :: "Recording list \<Rightarrow> ActivityListOptions \<Rightarrow> Recording list" where
  "filterRecordings recordings opts = filterLoop opts recordings []"

text \<open>Sample data: a person, and a recording of that person updated at a given instant.\<close>

definition person :: "int \<Rightarrow> Person" where
  "person i = \<lparr> Person.ID = i, Name = ''Ann'', EmailAddress = ''ann@example.com'',
     Title = '''', AvatarURL = '''', Company = None, CreatedAt = '''',
     Admin = False, Owner = False \<rparr>"

definition recording :: "int \<Rightarrow> time \<Rightarrow> Recording" where
  "recording i t = \<lparr> Recording.ID = i, Title = ''t'', Status = ''active'', Type = ''Todo'',
     CreatedAt = 0, UpdatedAt = t, URL = '''', AppURL = '''', Creator = person 7,
     Bucket = \<lparr> Bucket.ID = 1, Name = ''b'', Type = ''Project'' \<rparr>, Parent = None \<rparr>"

definition sinceOnly :: "time \<Rightarrow> ActivityListOptions" where
  "sinceOnly s = \<lparr> Since = Some s, RecordingTypes = [], PersonID = 0, Limit = 0 \<rparr>"

(*PROPERTIES*)

section \<open>Properties of the activity feed\<close>

lemma recording_simps [simp]:
  "UpdatedAt (recording i t) = t"
  "Creator (recording i t) = person 7"
  "Recording.ID (recording i t) = i"
  "Person.ID (person j) = j"
  by (simp_all add: recording_def person_def)

lemma recording_eq_iff [simp]: "(recording i t = recording j u) = (i = j \<and> t = u)"
  by (auto simp: recording_def)

lemma sinceOnly_simps [simp]:
  "Since (sinceOnly s) = Some s" "PersonID (sinceOnly s) = 0" "Limit (sinceOnly s) = 0"
  by (simp_all add: sinceOnly_def)

lemma filterLoop_since_acc:
  assumes "Since opts = Some s"
  shows "r \<in> set (filterLoop opts rs acc) \<Longrightarrow> (\<And>a. a \<in> set acc \<Longrightarrow> s \<le> UpdatedAt a)
    \<Longrightarrow> s \<le> UpdatedAt r"
proof (induction rs arbitrary: acc)
  case Nil
  then show ?case by simp
next
  case (Cons x rs)
  show ?case
  proof (cases "Before (UpdatedAt x) s \<or> (PersonID opts > 0 \<and> Person.ID (Creator x) \<noteq> PersonID opts)")
    case True
    with Cons.prems(1) assms have "r \<in> set (filterLoop opts rs acc)"
      by (auto split: if_splits)
    then show ?thesis using Cons.prems(2) by (rule Cons.IH)
  next
    case False
    then have ge: "s \<le> UpdatedAt x" by (simp add: Before_def)
    have acc': "\<And>a. a \<in> set (acc @ [x]) \<Longrightarrow> s \<le> UpdatedAt a"
      using ge Cons.prems(2) by auto
    show ?thesis
    proof (cases "Limit opts > 0 \<and> int (length (acc @ [x])) \<ge> Limit opts")
      case True
      with False Cons.prems(1) assms have "r \<in> set (acc @ [x])"
        by (auto simp: Let_def)
      then show ?thesis by (rule acc')
    next
      case False
      with \<open>\<not> (Before (UpdatedAt x) s \<or> (PersonID opts > 0 \<and> Person.ID (Creator x) \<noteq> PersonID opts))\<close>
        Cons.prems(1) assms
      have "r \<in> set (filterLoop opts rs (acc @ [x]))"
        by (auto simp: Let_def)
      then show ?thesis using acc' by (rule Cons.IH)
    qed
  qed
qed

lemma filterLoop_keeps_acc:
  "x \<in> set acc \<Longrightarrow> x \<in> set (filterLoop opts rs acc)"
proof (induction rs arbitrary: acc)
  case Nil
  then show ?case by simp
next
  case (Cons a rs)
  from Cons.prems have "x \<in> set (acc @ [a])" by simp
  then have "x \<in> set (filterLoop opts rs (acc @ [a]))" by (rule Cons.IH)
  with Cons show ?case by (simp add: Let_def)
qed

lemma filterLoop_keeps_equal:
  "Since opts = Some s \<Longrightarrow> Limit opts \<le> 0 \<Longrightarrow> r \<in> set rs \<Longrightarrow> UpdatedAt r = s \<Longrightarrow>
   (PersonID opts > 0 \<longrightarrow> Person.ID (Creator r) = PersonID opts) \<Longrightarrow>
   r \<in> set (filterLoop opts rs acc)"
proof (induction rs arbitrary: acc)
  case Nil
  then show ?case by simp
next
  case (Cons a rs)
  show ?case
  proof (cases "a = r")
    case True
    have "r \<in> set (acc @ [r])" by simp
    then have "r \<in> set (filterLoop opts rs (acc @ [r]))"
      by (rule filterLoop_keeps_acc)
    with True Cons.prems show ?thesis
      by (auto simp: Before_def Let_def)
  next
    case False
    with Cons.prems have "r \<in> set rs" by simp
    with Cons show ?thesis
      by (auto simp: Let_def)
  qed
qed

text \<open>
  Claim C3, as the code has it: the since filter of \<open>filterRecordings\<close> is an inclusive
  lower bound. No item of the output was updated strictly before \<open>since\<close>, and an item
  updated exactly at \<open>since\<close> is kept whenever the person filter accepts it and no limit
  is set.
\<close>

theorem filterRecordings_since_inclusive:
  assumes "Since opts = Some s"
  shows "(\<forall>r \<in> set (filterRecordings rs opts). \<not> Before (UpdatedAt r) s) \<and>
         (\<forall>r \<in> set rs. UpdatedAt r = s \<and> Limit opts \<le> 0 \<and>
             (PersonID opts > 0 \<longrightarrow> Person.ID (Creator r) = PersonID opts)
           \<longrightarrow> r \<in> set (filterRecordings rs opts))"
proof (intro conjI ballI impI)
  fix r assume "r \<in> set (filterRecordings rs opts)"
  then have "r \<in> set (filterLoop opts rs [])" by (simp add: filterRecordings_def)
  then have "s \<le> UpdatedAt r" by (rule filterLoop_since_acc [OF assms]) simp
  then show "\<not> Before (UpdatedAt r) s" by (simp add: Before_def)
next
  fix r assume "r \<in> set rs" and
    "UpdatedAt r = s \<and> Limit opts \<le> 0 \<and> (PersonID opts > 0 \<longrightarrow> Person.ID (Creator r) = PersonID opts)"
  then show "r \<in> set (filterRecordings rs opts)"
    using assms by (simp add: filterRecordings_def filterLoop_keeps_equal)
qed

theorem filterRecordings_since_inclusive_witness:
  "Since (sinceOnly 5) = Some 5 \<and>
   recording 1 5 \<in> set (filterRecordings [recording 1 5, recording 2 4] (sinceOnly 5)) \<and>
   \<not> Before (UpdatedAt (recording 1 5)) 5"
  using filterRecordings_since_inclusive [of "sinceOnly 5" 5 "[recording 1 5, recording 2 4]"]
  by (simp add: Before_def)

text \<open>
  Claim C3 as stated fails: a recording updated exactly at \<open>since\<close> is returned.
\<close>

theorem filterRecordings_equal_kept_counterexample:
  "filterRecordings [recording 1 5] (sinceOnly 5) = [recording 1 5] \<and>
   UpdatedAt (recording 1 5) = 5 \<and> Since (sinceOnly 5) = Some 5"
  by (simp add: filterRecordings_def Before_def)

text \<open>
  Claim C4, as the code has it: on a non-empty page of recordings the page check returns
  false (stop after this page) if and only if the last item was updated strictly before
  the cutoff; when the last item was updated at the cutoff or later, it returns true.
\<close>

theorem sincePageCheck_strict:
  "recs \<noteq> [] \<Longrightarrow>
   sincePageCheck cutoff (RecordingPage recs) = (\<not> UpdatedAt (last recs) < cutoff)"
  by (simp add: sincePageCheck_def Before_def last_conv_nth)

theorem sincePageCheck_strict_witness:
  "[recording 1 9, recording 2 5] \<noteq> [] \<and>
   sincePageCheck 5 (RecordingPage [recording 1 9, recording 2 5]) \<and>
   \<not> sincePageCheck 6 (RecordingPage [recording 1 9, recording 2 5])"
  using sincePageCheck_strict [of "[recording 1 9, recording 2 5]" 5]
    sincePageCheck_strict [of "[recording 1 9, recording 2 5]" 6]
  by simp

text \<open>
  Claim C4 as stated fails at equality: the last item is not after the cutoff, and the
  check still returns true (continue).
\<close>

theorem sincePageCheck_equal_counterexample:
  "sincePageCheck 5 (RecordingPage [recording 1 5]) = True \<and>
   \<not> After (UpdatedAt (last [recording 1 5])) 5"
  by (simp add: sincePageCheck_def Before_def After_def)

declare insertionStep.simps [simp del]

lemma insertionStep_Nil [simp]: "insertionStep lt [] x = [x]"
  by (simp add: insertionStep.simps)

lemma insertionStep_snoc [simp]:
  "insertionStep lt (ys @ [y]) x =
     (if lt x y then insertionStep lt ys x @ [y] else ys @ [y, x])"
  by (subst insertionStep.simps) simp

lemma mset_insertionStep: "mset (insertionStep lt ys x) = add_mset x (mset ys)"
  by (induction ys rule: rev_induct) simp_all

lemma set_insertionStep: "set (insertionStep lt ys x) = insert x (set ys)"
  by (induction ys rule: rev_induct) auto

lemma sorted_insertionStep:
  fixes f :: "'a \<Rightarrow> 'b::linorder"
  assumes "sorted_wrt (\<lambda>a b. f b \<le> f a) ys"
  shows "sorted_wrt (\<lambda>a b. f b \<le> f a) (insertionStep (\<lambda>a b. f b < f a) ys x)"
  using assms
proof (induction ys rule: rev_induct)
  case Nil
  then show ?case by simp
next
  case (snoc y ys)
  then have srt: "sorted_wrt (\<lambda>a b. f b \<le> f a) ys" and low: "\<forall>a \<in> set ys. f y \<le> f a"
    by (simp_all add: sorted_wrt_append)
  show ?case
  proof (cases "f y < f x")
    case True
    with snoc.IH [OF srt] low show ?thesis
      by (simp add: sorted_wrt_append set_insertionStep)
  next
    case False
    with srt low show ?thesis
      by (fastforce simp: sorted_wrt_append)
  qed
qed

lemma filter_insertionStep:
  fixes f :: "'a \<Rightarrow> 'b::linorder"
  shows "filter (\<lambda>r. f r = t) (insertionStep (\<lambda>a b. f b < f a) ys x) =
         filter (\<lambda>r. f r = t) ys @ filter (\<lambda>r. f r = t) [x]"
  by (induction ys rule: rev_induct) auto

lemma foldl_insertionStep:
  fixes f :: "'a \<Rightarrow> 'b::linorder"
  defines "lt \<equiv> (\<lambda>a b. f b < f a)"
  shows "mset (foldl (insertionStep lt) acc xs) = mset acc + mset xs"
    and "sorted_wrt (\<lambda>a b. f b \<le> f a) acc \<Longrightarrow>
         sorted_wrt (\<lambda>a b. f b \<le> f a) (foldl (insertionStep lt) acc xs)"
    and "filter (\<lambda>r. f r = t) (foldl (insertionStep lt) acc xs) =
         filter (\<lambda>r. f r = t) acc @ filter (\<lambda>r. f r = t) xs"
proof -
  show "mset (foldl (insertionStep lt) acc xs) = mset acc + mset xs"
    by (induction xs arbitrary: acc) (simp_all add: mset_insertionStep)
  show "sorted_wrt (\<lambda>a b. f b \<le> f a) acc \<Longrightarrow>
         sorted_wrt (\<lambda>a b. f b \<le> f a) (foldl (insertionStep lt) acc xs)"
    unfolding lt_def by (induction xs arbitrary: acc) (simp_all add: sorted_insertionStep)
  show "filter (\<lambda>r. f r = t) (foldl (insertionStep lt) acc xs) =
         filter (\<lambda>r. f r = t) acc @ filter (\<lambda>r. f r = t) xs"
    unfolding lt_def by (induction xs arbitrary: acc) (simp_all add: filter_insertionStep)
qed

text \<open>
  Claim C9: \<open>sortRecordings\<close> returns a permutation of its input, ordered by
  \<open>UpdatedAt\<close> descending, in which the items sharing any one timestamp \<open>t\<close> appear in
  the order they had in the input.
\<close>

theorem sortRecordings_stable_descending:
  "mset (sortRecordings rs) = mset rs \<and>
   sorted_wrt (\<lambda>a b. \<not> After (UpdatedAt b) (UpdatedAt a)) (sortRecordings rs) \<and>
   filter (\<lambda>r. UpdatedAt r = t) (sortRecordings rs) = filter (\<lambda>r. UpdatedAt r = t) rs"
proof -
  have ord: "(\<lambda>a b. \<not> After (UpdatedAt b) (UpdatedAt a)) = (\<lambda>a b. UpdatedAt b \<le> UpdatedAt a)"
    by (auto simp: After_def fun_eq_iff)
  have lt: "(\<lambda>ri rj. After (UpdatedAt ri) (UpdatedAt rj)) = (\<lambda>a b. UpdatedAt b < UpdatedAt a)"
    by (auto simp: After_def fun_eq_iff)
  show ?thesis
    unfolding sortRecordings_def SliceStable_def ord lt
    using foldl_insertionStep(1) [of UpdatedAt "[]" rs]
      foldl_insertionStep(2) [of UpdatedAt "[]" rs]
      foldl_insertionStep(3) [of UpdatedAt t "[]" rs]
    by simp
qed

text \<open>Three items sharing a timestamp keep their input order.\<close>

lemma sortRecordings_example:
  "sortRecordings [recording 1 5, recording 2 9, recording 3 5, recording 4 5] =
     [recording 2 9, recording 1 5, recording 3 5, recording 4 5]"
  by (simp add: sortRecordings_def SliceStable_def After_def recording_def insertionStep.simps)

end
